theory Spec2Isabelle
  imports
    Main
    "HOL-Library.Char_ord"
    "HOL-Library.List_Lexorder"
    "HOL-Library.Multiset"
begin

section \<open>The policy store of app.py\<close>

text \<open>
  The persistence layer of \<^verbatim>\<open>app.py\<close> is a set of functions that each open the SQLite
  database, run one SQL statement and close it again. The database is modelled as a record
  of its tables; each table is the list of its rows in rowid order, together with the
  counter SQLite keeps for an \<^verbatim>\<open>AUTOINCREMENT\<close> key. A function that writes takes the
  database and returns the new one. The reading of the clock,
  \<^verbatim>\<open>datetime.now().isoformat()\<close>, is an argument \<open>now\<close> of every function that stamps a row.

  Text columns are strings of bytes, compared as SQLite's default collation compares them:
  byte by byte, a proper prefix first. That is the lexicographic order on \<^typ>\<open>string\<close>.
\<close>

subsection \<open>Tables\<close>

record policy =
  p_id :: int
  p_title :: string
  p_category :: string
  p_target_audience :: string
  p_description :: string
  p_status :: string
  p_created_at :: string
  p_updated_at :: string

text \<open>
  \<^verbatim>\<open>policy_contents\<close> and \<^verbatim>\<open>generated_media\<close> hold JSON text in a column that the reading
  functions replace by the decoded value; the type of that column is a parameter of the
  row type, text in the table and a value in a result. A nullable column is an option.
\<close>

record ('d, 'm) content =
  c_id :: int
  c_policy_id :: int
  c_content_type :: string
  c_content_data :: 'd
  c_metadata :: 'm
  c_created_at :: string

record 'g media =
  m_id :: int
  m_policy_id :: int
  m_media_type :: string
  m_media_url :: "string option"
  m_media_data :: "string option"
  m_prompt :: "string option"
  m_generation_params :: 'g
  m_created_at :: string

record db =
  policies :: "policy list"
  policies_seq :: int
  policy_contents :: "(string, string option) content list"
  policy_contents_seq :: int
  generated_media :: "string option media list"
  generated_media_seq :: int

text \<open>
  \<^verbatim>\<open>INTEGER PRIMARY KEY AUTOINCREMENT\<close>: the key of a new row is one more than the largest
  key the table has ever held, which SQLite tracks in \<^verbatim>\<open>sqlite_sequence\<close>.
\<close>

definition next_rowid :: "int \<Rightarrow> int list \<Rightarrow> int" where
  "next_rowid seq ids = fold max ids seq + 1"

subsection \<open>SQL expressions\<close>

text \<open>
  A comparison with NULL is NULL, and a row is selected when the \<^verbatim>\<open>WHERE\<close> expression is
  true. \<^verbatim>\<open>x BETWEEN a AND b\<close> is \<^verbatim>\<open>x >= a AND x <= b\<close>.
\<close>

fun sql_eq :: "string option \<Rightarrow> string option \<Rightarrow> bool option" where
  "sql_eq (Some x) (Some y) = Some (x = y)"
| "sql_eq _ _ = None"

fun sql_ge :: "string option \<Rightarrow> string option \<Rightarrow> bool option" where
  "sql_ge (Some x) (Some y) = Some (y \<le> x)"
| "sql_ge _ _ = None"

fun sql_le :: "string option \<Rightarrow> string option \<Rightarrow> bool option" where
  "sql_le (Some x) (Some y) = Some (x \<le> y)"
| "sql_le _ _ = None"

fun sql_and :: "bool option \<Rightarrow> bool option \<Rightarrow> bool option" where
  "sql_and (Some False) _ = Some False"
| "sql_and _ (Some False) = Some False"
| "sql_and (Some True) (Some True) = Some True"
| "sql_and _ _ = None"

definition sql_between :: "string option \<Rightarrow> string option \<Rightarrow> string option \<Rightarrow> bool option" where
  "sql_between x a b = sql_and (sql_ge x a) (sql_le x b)"

definition sql_where :: "bool option \<Rightarrow> bool" where
  "sql_where b = (b = Some True)"

text \<open>
  \<^verbatim>\<open>ORDER BY created_at DESC\<close>: the rows sorted by the text of the column, largest first.
  Rows with equal keys stay in the order of the scan.
\<close>

fun insert_desc :: "('a \<Rightarrow> string) \<Rightarrow> 'a \<Rightarrow> 'a list \<Rightarrow> 'a list" where
  "insert_desc k x [] = [x]"
| "insert_desc k x (y # ys) =
     (if k x \<le> k y then y # insert_desc k x ys else x # y # ys)"

definition order_by_desc :: "('a \<Rightarrow> string) \<Rightarrow> 'a list \<Rightarrow> 'a list" where
  "order_by_desc k rows = foldl (\<lambda>sorted row. insert_desc k row sorted) [] rows"

text \<open>\<^verbatim>\<open>LIMIT n\<close>: the first \<open>n\<close> rows; a negative limit is no limit.\<close>

definition sql_limit :: "int \<Rightarrow> 'a list \<Rightarrow> 'a list" where
  "sql_limit n rows = (if n < 0 then rows else take (nat n) rows)"

subsection \<open>The policy repository\<close>

definition create_policy ::
  "string \<Rightarrow> string \<Rightarrow> string \<Rightarrow> string \<Rightarrow> string \<Rightarrow> db \<Rightarrow> int \<times> db" where
  "create_policy now title category target_audience description s =
     (let lastrowid = next_rowid (policies_seq s) (map p_id (policies s));
          row = \<lparr>p_id = lastrowid, p_title = title, p_category = category,
                 p_target_audience = target_audience, p_description = description,
                 p_status = ''draft'', p_created_at = now, p_updated_at = now\<rparr>
      in (lastrowid, s\<lparr>policies := policies s @ [row], policies_seq := lastrowid\<rparr>))"

definition update_policy_status :: "string \<Rightarrow> int \<Rightarrow> string \<Rightarrow> db \<Rightarrow> db" where
  "update_policy_status now policy_id status s =
     s\<lparr>policies :=
         map (\<lambda>row. if p_id row = policy_id
                     then row\<lparr>p_status := status, p_updated_at := now\<rparr> else row)
             (policies s)\<rparr>"

definition get_policy :: "db \<Rightarrow> int \<Rightarrow> policy option" where
  "get_policy s policy_id = find (\<lambda>row. p_id row = policy_id) (policies s)"

definition get_all_policies :: "db \<Rightarrow> int \<Rightarrow> policy list" where
  "get_all_policies s limit = sql_limit limit (order_by_desc p_created_at (policies s))"

text \<open>
  The two date queries call SQLite's built-in \<^verbatim>\<open>date()\<close>, which maps a time text to the
  text of its calendar day and anything it cannot read to NULL. The function is not part
  of the program: it is the parameter \<open>date\<close> of the two queries.
\<close>

definition get_policies_by_date ::
  "(string \<Rightarrow> string option) \<Rightarrow> db \<Rightarrow> string \<Rightarrow> policy list" where
  "get_policies_by_date date s date_str =
     order_by_desc p_created_at
       (filter (\<lambda>row. sql_where (sql_eq (date (p_created_at row)) (date date_str)))
          (policies s))"

definition get_policies_by_date_range ::
  "(string \<Rightarrow> string option) \<Rightarrow> db \<Rightarrow> string \<Rightarrow> string \<Rightarrow> policy list" where
  "get_policies_by_date_range date s start_date end_date =
     order_by_desc p_created_at
       (filter (\<lambda>row. sql_where
                  (sql_between (date (p_created_at row)) (date start_date) (date end_date)))
          (policies s))"

section \<open>JSON text\<close>

text \<open>
  The content and media functions keep structured values in text columns: they write them
  with \<^verbatim>\<open>json.dumps(..., ensure_ascii=False)\<close> and read them with \<^verbatim>\<open>json.loads\<close>. The
  two functions belong to Python's library, not to the program. They are modelled here on
  the values the program stores: \<^verbatim>\<open>None\<close>, booleans, integers, strings, lists and
  dictionaries with string keys. A dictionary is the list of its items in insertion order.
  A string is its UTF-8 bytes, as the column holds it.

  Floats are outside the model. Where \<^verbatim>\<open>json.loads\<close> would build a float the model answers
  \<open>FloatValue\<close>, which is neither a value nor a decoding error; no theorem below draws a
  conclusion from it. \<open>OutOfFuel\<close> is the answer of a scanner whose bound on nested calls is
  used up; \<open>json_loads\<close> is shown below never to give it.

  Integers are unbounded and values nest to any depth: the interpreter's limits on the
  digits of an integer text and on the depth of recursion are not modelled.
\<close>

datatype pyval =
    PNone
  | PBool bool
  | PInt int
  | PStr string
  | PList "pyval list"
  | PDict "(string \<times> pyval) list"

datatype error = JSONDecodeError | FloatValue | OutOfFuel

text \<open>The truth value of an object, as \<^verbatim>\<open>if x\<close> and \<^verbatim>\<open>x or y\<close> take it.\<close>

fun truthy :: "pyval \<Rightarrow> bool" where
  "truthy PNone = False"
| "truthy (PBool b) = b"
| "truthy (PInt i) = (i \<noteq> 0)"
| "truthy (PStr t) = (t \<noteq> [])"
| "truthy (PList vs) = (vs \<noteq> [])"
| "truthy (PDict kvs) = (kvs \<noteq> [])"

subsection \<open>json.dumps\<close>

text \<open>
  With \<^verbatim>\<open>ensure_ascii=False\<close> a string is written between double quotes with only the
  quote, the backslash and the control characters below 0x20 escaped: the short escapes
  where JSON has one, \<^verbatim>\<open>\u00XX\<close> in lower-case hexadecimal otherwise.
\<close>

abbreviation dquote :: char where "dquote \<equiv> CHR 0x22"

abbreviation backslash :: char where "backslash \<equiv> CHR 0x5C"

definition hex_digit :: "nat \<Rightarrow> char" where
  "hex_digit d = ''0123456789abcdef'' ! d"

definition escape_char :: "char \<Rightarrow> string" where
  "escape_char c =
     (if c = dquote then [backslash, dquote]
      else if c = backslash then [backslash, backslash]
      else if c = CHR 0x0A then [backslash, CHR ''n'']
      else if c = CHR 0x0D then [backslash, CHR ''r'']
      else if c = CHR 0x09 then [backslash, CHR ''t'']
      else if c = CHR 0x08 then [backslash, CHR ''b'']
      else if c = CHR 0x0C then [backslash, CHR ''f'']
      else if (of_char c :: nat) < 0x20
        then [backslash, CHR ''u'', CHR ''0'', CHR ''0'',
              hex_digit (of_char c div 16), hex_digit (of_char c mod 16)]
      else [c])"

definition encode_basestring :: "string \<Rightarrow> string" where
  "encode_basestring t = dquote # concat (map escape_char t) @ [dquote]"

text \<open>An integer is written in decimal, as \<^verbatim>\<open>str\<close> writes it.\<close>

definition digit_char :: "nat \<Rightarrow> char" where
  "digit_char d = char_of (of_char CHR ''0'' + d)"

fun show_nat :: "nat \<Rightarrow> string" where
  "show_nat n = (if n < 10 then [digit_char n] else show_nat (n div 10) @ [digit_char (n mod 10)])"

definition show_int :: "int \<Rightarrow> string" where
  "show_int i = (if i < 0 then CHR ''-'' # show_nat (nat (- i)) else show_nat (nat i))"

text \<open>
  The default separators: items are joined by a comma and a blank, a key and its value by
  a colon and a blank.
\<close>

fun commas :: "string list \<Rightarrow> string" where
  "commas [] = []"
| "commas [x] = x"
| "commas (x # y # ys) = x @ '', '' @ commas (y # ys)"

fun json_dumps :: "pyval \<Rightarrow> string" where
  "json_dumps PNone = ''null''"
| "json_dumps (PBool b) = (if b then ''true'' else ''false'')"
| "json_dumps (PInt i) = show_int i"
| "json_dumps (PStr t) = encode_basestring t"
| "json_dumps (PList vs) = ''['' @ commas (map json_dumps vs) @ '']''"
| "json_dumps (PDict kvs) =
     ''{'' @ commas (map (\<lambda>kv. encode_basestring (fst kv) @ '': '' @ json_dumps (snd kv)) kvs) @ ''}''"

subsection \<open>json.loads\<close>

text \<open>
  The decoder skips blanks, tabs, line feeds and carriage returns between tokens.
\<close>

definition is_digit :: "char \<Rightarrow> bool" where
  "is_digit c = (CHR ''0'' \<le> c \<and> c \<le> CHR ''9'')"

definition is_ws :: "char \<Rightarrow> bool" where
  "is_ws c = (c = CHR '' '' \<or> c = CHR 0x09 \<or> c = CHR 0x0A \<or> c = CHR 0x0D)"

definition skip_ws :: "string \<Rightarrow> string" where
  "skip_ws cs = dropWhile is_ws cs"

text \<open>
  \<^verbatim>\<open>scanstring\<close> reads a string from the character after its opening quote and returns it
  with the text that follows the closing quote. A \<^verbatim>\<open>\uXXXX\<close> escape yields the UTF-8
  bytes of its code point, a surrogate pair those of the character it encodes. A control
  character that is not escaped is an error (the decoder is strict), and so is a text that
  ends inside the string.
\<close>

definition hex_value :: "char \<Rightarrow> nat option" where
  "hex_value c =
     (if CHR ''0'' \<le> c \<and> c \<le> CHR ''9'' then Some (of_char c - of_char CHR ''0'')
      else if CHR ''a'' \<le> c \<and> c \<le> CHR ''f'' then Some (of_char c - of_char CHR ''a'' + 10)
      else if CHR ''A'' \<le> c \<and> c \<le> CHR ''F'' then Some (of_char c - of_char CHR ''A'' + 10)
      else None)"

fun decode_uXXXX :: "string \<Rightarrow> nat option" where
  "decode_uXXXX [a, b, c, d] =
     (case (hex_value a, hex_value b, hex_value c, hex_value d) of
        (Some x, Some y, Some z, Some w) \<Rightarrow> Some (((x * 16 + y) * 16 + z) * 16 + w)
      | _ \<Rightarrow> None)"
| "decode_uXXXX _ = None"

definition utf8 :: "nat \<Rightarrow> string" where
  "utf8 u =
     (if u < 0x80 then [char_of u]
      else if u < 0x800 then [char_of (0xC0 + u div 64), char_of (0x80 + u mod 64)]
      else if u < 0x10000
        then [char_of (0xE0 + u div 4096), char_of (0x80 + u div 64 mod 64),
              char_of (0x80 + u mod 64)]
      else [char_of (0xF0 + u div 262144), char_of (0x80 + u div 4096 mod 64),
            char_of (0x80 + u div 64 mod 64), char_of (0x80 + u mod 64)])"

definition backslash_decode :: "char \<Rightarrow> char option" where
  "backslash_decode e =
     (if e = dquote then Some dquote
      else if e = backslash then Some backslash
      else if e = CHR ''/'' then Some CHR ''/''
      else if e = CHR ''b'' then Some (CHR 0x08)
      else if e = CHR ''f'' then Some (CHR 0x0C)
      else if e = CHR ''n'' then Some (CHR 0x0A)
      else if e = CHR ''r'' then Some (CHR 0x0D)
      else if e = CHR ''t'' then Some (CHR 0x09)
      else None)"

fun scanstring :: "string \<Rightarrow> string \<Rightarrow> error + (string \<times> string)" where
  "scanstring chunks [] = Inl JSONDecodeError"
| "scanstring chunks (c # cs) =
     (if c = dquote then Inr (chunks, cs)
      else if c = backslash then
        (case cs of
           [] \<Rightarrow> Inl JSONDecodeError
         | e # cs' \<Rightarrow>
             if e = CHR ''u'' then
               (case decode_uXXXX (take 4 cs') of
                  None \<Rightarrow> Inl JSONDecodeError
                | Some uni \<Rightarrow>
                    if 0xD800 \<le> uni \<and> uni \<le> 0xDBFF \<and> take 2 (drop 4 cs') = [backslash, CHR ''u'']
                    then
                      (case decode_uXXXX (take 4 (drop 6 cs')) of
                         None \<Rightarrow> Inl JSONDecodeError
                       | Some uni2 \<Rightarrow>
                           if 0xDC00 \<le> uni2 \<and> uni2 \<le> 0xDFFF
                           then scanstring
                                  (chunks @ utf8 (0x10000 + ((uni - 0xD800) * 1024 + (uni2 - 0xDC00))))
                                  (drop 10 cs')
                           else scanstring (chunks @ utf8 uni) (drop 4 cs'))
                    else scanstring (chunks @ utf8 uni) (drop 4 cs'))
             else
               (case backslash_decode e of
                  None \<Rightarrow> Inl JSONDecodeError
                | Some ch \<Rightarrow> scanstring (chunks @ [ch]) cs'))
      else if (of_char c :: nat) < 0x20 then Inl JSONDecodeError
      else scanstring (chunks @ [c]) cs)"

text \<open>
  A number matches \<^verbatim>\<open>-?(0|[1-9][0-9]*)\<close>, then an optional fraction and an optional exponent.
  With neither it is an integer; with either, and for \<^verbatim>\<open>NaN\<close>, \<^verbatim>\<open>Infinity\<close> and
  \<^verbatim>\<open>-Infinity\<close>, it is a float.
\<close>

definition digit_value :: "char \<Rightarrow> nat" where
  "digit_value c = of_char c - of_char CHR ''0''"

definition nat_of_digits :: "string \<Rightarrow> nat" where
  "nat_of_digits ds = foldl (\<lambda>n d. 10 * n + digit_value d) 0 ds"

definition is_frac :: "string \<Rightarrow> bool" where
  "is_frac cs = (case cs of c # d # _ \<Rightarrow> c = CHR ''.'' \<and> is_digit d | _ \<Rightarrow> False)"

definition is_exp :: "string \<Rightarrow> bool" where
  "is_exp cs =
     (case cs of
        e # d # ds \<Rightarrow>
          (e = CHR ''e'' \<or> e = CHR ''E'') \<and>
          (is_digit d \<or> ((d = CHR ''+'' \<or> d = CHR ''-'') \<and> (case ds of d' # _ \<Rightarrow> is_digit d' | [] \<Rightarrow> False)))
      | _ \<Rightarrow> False)"

definition match_integer :: "string \<Rightarrow> (string \<times> string) option" where
  "match_integer cs =
     (case cs of
        [] \<Rightarrow> None
      | c # cs' \<Rightarrow>
          if c = CHR ''0'' then Some ([c], cs')
          else if is_digit c then Some (takeWhile is_digit cs, dropWhile is_digit cs)
          else None)"

definition parse_number :: "string \<Rightarrow> error + (pyval \<times> string)" where
  "parse_number cs =
     (let neg = (case cs of c # _ \<Rightarrow> c = CHR ''-'' | [] \<Rightarrow> False) in
      case match_integer (if neg then tl cs else cs) of
        Some (ds, rest) \<Rightarrow>
          if is_frac rest \<or> is_exp rest then Inl FloatValue
          else Inr (PInt (if neg then - int (nat_of_digits ds) else int (nat_of_digits ds)), rest)
      | None \<Rightarrow>
          if take 3 cs = ''NaN'' \<or> take 8 cs = ''Infinity'' \<or> take 9 cs = ''-Infinity''
          then Inl FloatValue else Inl JSONDecodeError)"

text \<open>
  \<^verbatim>\<open>dict(pairs)\<close>: a key that comes again keeps its place and takes the later value.
\<close>

fun dict_set :: "(string \<times> pyval) list \<Rightarrow> string \<times> pyval \<Rightarrow> (string \<times> pyval) list" where
  "dict_set [] kv = [kv]"
| "dict_set (x # d) kv = (if fst x = fst kv then (fst x, snd kv) # d else x # dict_set d kv)"

definition py_dict :: "(string \<times> pyval) list \<Rightarrow> (string \<times> pyval) list" where
  "py_dict pairs = foldl dict_set [] pairs"

text \<open>
  \<^verbatim>\<open>scan_once\<close> reads one value at the head of the text, which starts at the first
  character of the value. \<^verbatim>\<open>JSONArray\<close> is the loop over the elements of an array, entered
  at the first element with the elements read so far; \<^verbatim>\<open>JSONObject\<close> is the loop over the
  members of an object, entered after the opening quote of a key with the pairs read so
  far. The first argument bounds the number of nested calls: each call passes one less to
  the calls it makes, and a call with none left answers \<open>OutOfFuel\<close>.
\<close>

fun scan_once :: "nat \<Rightarrow> string \<Rightarrow> error + (pyval \<times> string)"
and JSONArray :: "nat \<Rightarrow> pyval list \<Rightarrow> string \<Rightarrow> error + (pyval \<times> string)"
and JSONObject :: "nat \<Rightarrow> (string \<times> pyval) list \<Rightarrow> string \<Rightarrow> error + (pyval \<times> string)"
where
  "scan_once 0 cs = Inl OutOfFuel"
| "scan_once (Suc n) cs =
     (case cs of
        [] \<Rightarrow> Inl JSONDecodeError
      | c # cs' \<Rightarrow>
          if c = dquote then
            (case scanstring [] cs' of
               Inl e \<Rightarrow> Inl e
             | Inr (t, rest) \<Rightarrow> Inr (PStr t, rest))
          else if c = CHR ''{'' then
            (case skip_ws cs' of
               [] \<Rightarrow> Inl JSONDecodeError
             | d # rest \<Rightarrow>
                 if d = CHR ''}'' then Inr (PDict [], rest)
                 else if d = dquote then JSONObject n [] rest
                 else Inl JSONDecodeError)
          else if c = CHR ''['' then
            (case skip_ws cs' of
               [] \<Rightarrow> Inl JSONDecodeError
             | d # rest \<Rightarrow>
                 if d = CHR '']'' then Inr (PList [], rest)
                 else JSONArray n [] (d # rest))
          else if take 4 cs = ''null'' then Inr (PNone, drop 4 cs)
          else if take 4 cs = ''true'' then Inr (PBool True, drop 4 cs)
          else if take 5 cs = ''false'' then Inr (PBool False, drop 5 cs)
          else parse_number cs)"
| "JSONArray 0 values cs = Inl OutOfFuel"
| "JSONArray (Suc n) values cs =
     (case scan_once n cs of
        Inl e \<Rightarrow> Inl e
      | Inr (v, rest) \<Rightarrow>
          (case skip_ws rest of
             [] \<Rightarrow> Inl JSONDecodeError
           | d # rest' \<Rightarrow>
               if d = CHR '']'' then Inr (PList (values @ [v]), rest')
               else if d = CHR '','' then JSONArray n (values @ [v]) (skip_ws rest')
               else Inl JSONDecodeError))"
| "JSONObject 0 pairs cs = Inl OutOfFuel"
| "JSONObject (Suc n) pairs cs =
     (case scanstring [] cs of
        Inl e \<Rightarrow> Inl e
      | Inr (key, rest) \<Rightarrow>
          (case skip_ws rest of
             [] \<Rightarrow> Inl JSONDecodeError
           | c # rest1 \<Rightarrow>
               if c \<noteq> CHR '':'' then Inl JSONDecodeError
               else
                 (case scan_once n (skip_ws rest1) of
                    Inl e \<Rightarrow> Inl e
                  | Inr (v, rest2) \<Rightarrow>
                      (case skip_ws rest2 of
                         [] \<Rightarrow> Inl JSONDecodeError
                       | d # rest3 \<Rightarrow>
                           if d = CHR ''}'' then Inr (PDict (py_dict (pairs @ [(key, v)])), rest3)
                           else if d = CHR '','' then
                             (case skip_ws rest3 of
                                [] \<Rightarrow> Inl JSONDecodeError
                              | q # rest4 \<Rightarrow>
                                  if q = dquote then JSONObject n (pairs @ [(key, v)]) rest4
                                  else Inl JSONDecodeError)
                           else Inl JSONDecodeError))))"

text \<open>
  \<^verbatim>\<open>json.loads\<close> reads one value and accepts only blanks after it. It runs the scanner with
  twice the length of the text plus one as the bound.
\<close>

definition json_loads :: "string \<Rightarrow> error + pyval" where
  "json_loads t =
     (case scan_once (2 * length t + 1) (skip_ws t) of
        Inl e \<Rightarrow> Inl e
      | Inr (v, rest) \<Rightarrow> if skip_ws rest = [] then Inr v else Inl JSONDecodeError)"

section \<open>The content repository\<close>

text \<open>
  \<^verbatim>\<open>json.loads(x) if x else {}\<close>: NULL and the empty text read as the empty dictionary.
\<close>

definition loads_if_set :: "string option \<Rightarrow> error + pyval" where
  "loads_if_set column =
     (case column of
        None \<Rightarrow> Inr (PDict [])
      | Some t \<Rightarrow> if t \<noteq> [] then json_loads t else Inr (PDict []))"

text \<open>
  \<^verbatim>\<open>save_policy_content\<close> stores \<^verbatim>\<open>json.dumps(metadata or {})\<close>; an omitted \<open>metadata\<close>
  argument is \<^verbatim>\<open>None\<close>. \<^verbatim>\<open>save_generated_media\<close> names no \<^verbatim>\<open>media_url\<close>, which stays NULL.
\<close>

definition save_policy_content :: "string \<Rightarrow> int \<Rightarrow> string \<Rightarrow> pyval \<Rightarrow> pyval \<Rightarrow> db \<Rightarrow> db" where
  "save_policy_content now policy_id content_type content_data metadata s =
     (let rowid = next_rowid (policy_contents_seq s) (map c_id (policy_contents s));
          row = \<lparr>c_id = rowid, c_policy_id = policy_id, c_content_type = content_type,
                 c_content_data = json_dumps content_data,
                 c_metadata = Some (json_dumps (if truthy metadata then metadata else PDict [])),
                 c_created_at = now\<rparr>
      in s\<lparr>policy_contents := policy_contents s @ [row], policy_contents_seq := rowid\<rparr>)"

definition save_generated_media ::
  "string \<Rightarrow> int \<Rightarrow> string \<Rightarrow> string \<Rightarrow> string \<Rightarrow> pyval \<Rightarrow> db \<Rightarrow> db" where
  "save_generated_media now policy_id media_type media_data prompt params s =
     (let rowid = next_rowid (generated_media_seq s) (map m_id (generated_media s));
          row = \<lparr>m_id = rowid, m_policy_id = policy_id, m_media_type = media_type,
                 m_media_url = None, m_media_data = Some media_data, m_prompt = Some prompt,
                 m_generation_params = Some (json_dumps params), m_created_at = now\<rparr>
      in s\<lparr>generated_media := generated_media s @ [row], generated_media_seq := rowid\<rparr>)"


definition decode_content :: "(string, string option) content \<Rightarrow> error + (pyval, pyval) content" where
  "decode_content row =
     (case json_loads (c_content_data row) of
        Inl e \<Rightarrow> Inl e
      | Inr content_data \<Rightarrow>
          (case loads_if_set (c_metadata row) of
             Inl e \<Rightarrow> Inl e
           | Inr metadata \<Rightarrow>
               Inr \<lparr>c_id = c_id row, c_policy_id = c_policy_id row,
                    c_content_type = c_content_type row, c_content_data = content_data,
                    c_metadata = metadata, c_created_at = c_created_at row\<rparr>))"


definition decode_media :: "string option media \<Rightarrow> error + pyval media" where
  "decode_media row =
     (case loads_if_set (m_generation_params row) of
        Inl e \<Rightarrow> Inl e
      | Inr generation_params \<Rightarrow>
          Inr \<lparr>m_id = m_id row, m_policy_id = m_policy_id row, m_media_type = m_media_type row,
               m_media_url = m_media_url row, m_media_data = m_media_data row,
               m_prompt = m_prompt row, m_generation_params = generation_params,
               m_created_at = m_created_at row\<rparr>)"


subsection \<open>Sequences of calls\<close>

text \<open>The four functions that write, as values, and the database after a list of calls.\<close>

datatype call =
    CreatePolicy string string string string string
  | UpdatePolicyStatus string int string
  | SavePolicyContent string int string pyval pyval
  | SaveGeneratedMedia string int string string string pyval

fun run_call :: "call \<Rightarrow> db \<Rightarrow> db" where
  "run_call (CreatePolicy now title category target_audience description) s =
     snd (create_policy now title category target_audience description s)"
| "run_call (UpdatePolicyStatus now policy_id status) s = update_policy_status now policy_id status s"
| "run_call (SavePolicyContent now policy_id content_type content_data metadata) s =
     save_policy_content now policy_id content_type content_data metadata s"
| "run_call (SaveGeneratedMedia now policy_id media_type media_data prompt params) s =
     save_generated_media now policy_id media_type media_data prompt params s"

text \<open>
  \<^verbatim>\<open>init_database\<close> creates the three tables where they do not exist: on a new file, the
  database with no rows.
\<close>

definition init_database :: db where
  "init_database =
     \<lparr>policies = [], policies_seq = 0, policy_contents = [], policy_contents_seq = 0,
      generated_media = [], generated_media_seq = 0\<rparr>"

subsection \<open>Well-formed values and decodable rows\<close>

text \<open>
  The keys of a Python dictionary are distinct; \<open>wf_pyval\<close> says so of every dictionary in
  a value, and \<open>wf_call\<close> of the values a call hands to \<^verbatim>\<open>json.dumps\<close>. A table is decodable
  for a policy when the loop body succeeds on each of the policy's rows.
\<close>

fun wf_pyval :: "pyval \<Rightarrow> bool" where
  "wf_pyval (PList vs) = list_all wf_pyval vs"
| "wf_pyval (PDict kvs) = (distinct (map fst kvs) \<and> list_all (\<lambda>kv. wf_pyval (snd kv)) kvs)"
| "wf_pyval _ = True"

fun wf_call :: "call \<Rightarrow> bool" where
  "wf_call (SavePolicyContent now policy_id content_type content_data metadata) =
     (wf_pyval content_data \<and> wf_pyval metadata)"
| "wf_call (SaveGeneratedMedia now policy_id media_type media_data prompt params) = wf_pyval params"
| "wf_call _ = True"

definition contents_decodable :: "db \<Rightarrow> int \<Rightarrow> bool" where
  "contents_decodable s policy_id =
     list_all (\<lambda>row. \<not> isl (decode_content row))
       (filter (\<lambda>row. c_policy_id row = policy_id) (policy_contents s))"

definition media_decodable :: "db \<Rightarrow> int \<Rightarrow> bool" where
  "media_decodable s policy_id =
     list_all (\<lambda>row. \<not> isl (decode_media row))
       (filter (\<lambda>row. m_policy_id row = policy_id) (generated_media s))"

subsection \<open>Notions used in the proofs\<close>

text \<open>
  \<open>delim\<close>: the text after a value inside an array or an object, or at the end.
  \<open>cost\<close>: a bound on the nested calls \<open>scan_once\<close> makes on the encoding of a value.
  \<open>member_text\<close> is the encoding of one item of a dictionary and \<open>member_tail\<close> the same
  without its opening quote.
\<close>

definition delim :: "string \<Rightarrow> bool" where
  "delim rest = (case rest of [] \<Rightarrow> True | c # _ \<Rightarrow> c = CHR '','' \<or> c = CHR '']'' \<or> c = CHR ''}'')"

fun cost :: "pyval \<Rightarrow> nat" where
  "cost (PList vs) = Suc (sum_list (map cost vs) + length vs)"
| "cost (PDict kvs) = Suc (sum_list (map (\<lambda>kv. cost (snd kv)) kvs) + length kvs)"
| "cost _ = 1"

definition member_text :: "string \<times> pyval \<Rightarrow> string" where
  "member_text kv = encode_basestring (fst kv) @ '': '' @ json_dumps (snd kv)"

definition member_tail :: "string \<times> pyval \<Rightarrow> string" where
  "member_tail kv =
     concat (map escape_char (fst kv)) @ dquote # CHR '':'' # CHR '' '' # json_dumps (snd kv)"

subsection \<open>Sample data\<close>

text \<open>
  An instance of the parameter \<open>date\<close> for the time texts the program itself writes
  (\<^verbatim>\<open>isoformat()\<close> stamps and \<^verbatim>\<open>strftime("%Y-%m-%d")\<close> arguments): a text that starts
  with \<^verbatim>\<open>YYYY-MM-DD\<close>, alone or followed by \<^verbatim>\<open>T\<close> or a blank and the time of day, has
  its first ten characters as its day; any other text has none.
\<close>

definition iso_date :: "string \<Rightarrow> string option" where
  "iso_date t =
     (if 10 \<le> length t \<and> list_all is_digit (take 4 t) \<and> t ! 4 = CHR ''-'' \<and>
         is_digit (t ! 5) \<and> is_digit (t ! 6) \<and> t ! 7 = CHR ''-'' \<and>
         is_digit (t ! 8) \<and> is_digit (t ! 9) \<and>
         (length t = 10 \<or> t ! 10 = CHR ''T'' \<or> t ! 10 = CHR '' '')
      then Some (take 10 t) else None)"

definition air_quality :: policy where
  "air_quality =
     \<lparr>p_id = 1, p_title = ''Air quality'', p_category = ''Environment'',
      p_target_audience = ''Citizens'', p_description = ''Cleaner air in the city'',
      p_status = ''draft'', p_created_at = ''2024-03-01T09:00:00'',
      p_updated_at = ''2024-03-01T09:00:00''\<rparr>"

definition night_buses :: policy where
  "night_buses =
     \<lparr>p_id = 2, p_title = ''Night buses'', p_category = ''Transport'',
      p_target_audience = ''Students'', p_description = ''Buses after midnight'',
      p_status = ''draft'', p_created_at = ''2024-03-02T10:30:00.250000'',
      p_updated_at = ''2024-03-02T10:30:00.250000''\<rparr>"

definition two_policies :: db where
  "two_policies =
     \<lparr>policies = [air_quality, night_buses], policies_seq = 2,
      policy_contents = [], policy_contents_seq = 0,
      generated_media = [], generated_media_seq = 0\<rparr>"









section \<open>Properties of the policy repository\<close>

subsection \<open>Ordering and selection\<close>

lemma order_by_desc_Nil: "order_by_desc k [] = []"
  by (simp add: order_by_desc_def)

lemma set_insert_desc: "set (insert_desc k x ys) = insert x (set ys)"
  by (induction ys) auto

lemma mset_insert_desc: "mset (insert_desc k x ys) = add_mset x (mset ys)"
  by (induction ys) auto

lemma sorted_insert_desc:
  "sorted_wrt (\<lambda>a b. k b \<le> k a) ys \<Longrightarrow> sorted_wrt (\<lambda>a b. k b \<le> k a) (insert_desc k x ys)"
  by (induction ys) (auto simp: set_insert_desc)

lemma foldl_insert_desc_sorted:
  "sorted_wrt (\<lambda>a b. k b \<le> k a) acc \<Longrightarrow>
   sorted_wrt (\<lambda>a b. k b \<le> k a) (foldl (\<lambda>sorted row. insert_desc k row sorted) acc rows)"
  by (induction rows arbitrary: acc) (auto simp: sorted_insert_desc)

lemma foldl_insert_desc_mset:
  "mset (foldl (\<lambda>sorted row. insert_desc k row sorted) acc rows) = mset acc + mset rows"
  by (induction rows arbitrary: acc) (auto simp: mset_insert_desc)

lemma sorted_order_by_desc: "sorted_wrt (\<lambda>a b. k b \<le> k a) (order_by_desc k rows)"
  by (simp add: order_by_desc_def foldl_insert_desc_sorted)

lemma mset_order_by_desc: "mset (order_by_desc k rows) = mset rows"
  by (simp add: order_by_desc_def foldl_insert_desc_mset)


lemma length_order_by_desc: "length (order_by_desc k rows) = length rows"
  by (metis mset_order_by_desc size_mset)

lemma sql_and_Some: "sql_and (Some p) (Some q) = Some (p \<and> q)"
  by (cases p; cases q) simp_all

lemma between_reversed: "b < a \<Longrightarrow> \<not> sql_where (sql_between x (Some a) (Some b))"
  by (cases x) (auto simp: sql_between_def sql_where_def sql_and_Some)

lemma between_same: "sql_where (sql_between x a a) = sql_where (sql_eq x a)"
  by (cases x; cases a) (auto simp: sql_between_def sql_where_def sql_and_Some)

lemma two_policies_sorted:
  "order_by_desc p_created_at (policies two_policies) = [night_buses, air_quality]"
  by (simp add: order_by_desc_def two_policies_def air_quality_def night_buses_def)

text \<open>
  C3. When the day of \<open>start_date\<close> is after the day of \<open>end_date\<close>,
  \<open>get_policies_by_date_range\<close> returns the empty list, whatever the table holds: no day
  lies between the two bounds.
\<close>

theorem date_range_reversed_empty:
  assumes "date start_date = Some a" and "date end_date = Some b" and "b < a"
  shows "get_policies_by_date_range date s start_date end_date = []"
  using assms
  by (simp add: get_policies_by_date_range_def between_reversed order_by_desc_Nil)

theorem date_range_reversed_empty_witness:
  "iso_date ''2024-03-02'' = Some ''2024-03-02'' \<and>
   iso_date ''2024-03-01'' = Some ''2024-03-01'' \<and>
   ''2024-03-01'' < ''2024-03-02'' \<and>
   get_policies_by_date_range iso_date two_policies ''2024-03-02'' ''2024-03-01'' = []"
proof -
  have a: "iso_date ''2024-03-02'' = Some ''2024-03-02''"
    by (simp add: iso_date_def is_digit_def)
  have b: "iso_date ''2024-03-01'' = Some ''2024-03-01''"
    by (simp add: iso_date_def is_digit_def)
  have lt: "''2024-03-01'' < ''2024-03-02''"
    by simp
  show ?thesis
    using date_range_reversed_empty
      [where date = iso_date and start_date = "''2024-03-02''" and end_date = "''2024-03-01''"
         and s = two_policies, OF a b lt] a b lt
    by simp
qed

text \<open>
  C7. A range query whose two bounds are the same date returns the rows of the query for
  that single date, in the same order.
\<close>

theorem date_range_single_day:
  "get_policies_by_date_range date s d d = get_policies_by_date date s d"
  by (simp add: get_policies_by_date_range_def get_policies_by_date_def between_same)

text \<open>
  C8. For a limit \<open>n \<ge> 0\<close>, \<open>get_all_policies\<close> returns at most \<open>n\<close> rows, and each
  row's \<open>created_at\<close> is at least that of every row after it.
\<close>

theorem get_all_policies_limit_sorted:
  assumes "0 \<le> n"
  shows "length (get_all_policies s n) \<le> nat n \<and>
         sorted_wrt (\<lambda>a b. p_created_at b \<le> p_created_at a) (get_all_policies s n)"
  using assms
  by (simp add: get_all_policies_def sql_limit_def sorted_wrt_take sorted_order_by_desc)

theorem get_all_policies_limit_sorted_witness:
  "(0::int) \<le> 1 \<and> get_all_policies two_policies 1 = [night_buses] \<and>
   length (get_all_policies two_policies 1) \<le> nat 1 \<and>
   sorted_wrt (\<lambda>a b. p_created_at b \<le> p_created_at a) (get_all_policies two_policies 1)"
proof -
  have h: "(0::int) \<le> 1" by simp
  have "get_all_policies two_policies 1 = [night_buses]"
    by (simp add: get_all_policies_def sql_limit_def two_policies_sorted)
  then show ?thesis
    using get_all_policies_limit_sorted [OF h, of two_policies] by simp
qed

subsection \<open>Status updates\<close>

lemma find_update_status:
  "find (\<lambda>row. p_id row = pid) rows = Some old \<Longrightarrow>
   find (\<lambda>row. p_id row = pid)
     (map (\<lambda>row. if p_id row = pid then row\<lparr>p_status := st, p_updated_at := now\<rparr> else row) rows)
   = Some (old\<lparr>p_status := st, p_updated_at := now\<rparr>)"
  by (induction rows) (auto split: if_splits)

lemma get_policy_two_policies: "get_policy two_policies 1 = Some air_quality"
  by (simp add: get_policy_def two_policies_def air_quality_def)

text \<open>
  C5, as the code has it. For a policy that exists and any text \<open>st\<close>,
  \<open>update_policy_status\<close> followed by \<open>get_policy\<close> returns the earlier row with its status
  replaced by \<open>st\<close> and its \<open>updated_at\<close> replaced by the reading of the clock at the call.
  Nothing compares that reading with the stamp it replaces: the new \<open>updated_at\<close> is at
  least the earlier one exactly when the reading is.
\<close>

theorem update_status_then_get:
  assumes "get_policy s pid = Some old"
  shows "\<exists>new. get_policy (update_policy_status now pid st s) pid = Some new \<and>
           new = old\<lparr>p_status := st, p_updated_at := now\<rparr> \<and>
           p_status new = st \<and> p_updated_at new = now \<and>
           (p_updated_at old \<le> p_updated_at new) = (p_updated_at old \<le> now)"
  using assms by (simp add: get_policy_def update_policy_status_def find_update_status)

theorem update_status_then_get_witness:
  "get_policy two_policies 1 = Some air_quality \<and>
   (\<exists>new. get_policy (update_policy_status ''2024-03-05T08:00:00'' 1 ''active'' two_policies) 1
            = Some new \<and>
          new = air_quality\<lparr>p_status := ''active'', p_updated_at := ''2024-03-05T08:00:00''\<rparr> \<and>
          p_status new = ''active'' \<and> p_updated_at new = ''2024-03-05T08:00:00'' \<and>
          p_updated_at air_quality \<le> p_updated_at new)"
proof -
  have le: "p_updated_at air_quality \<le> ''2024-03-05T08:00:00''"
    by (simp add: air_quality_def)
  show ?thesis
    using update_status_then_get [OF get_policy_two_policies, of "''2024-03-05T08:00:00''" "''active''"]
      get_policy_two_policies le
    by simp
qed

text \<open>
  C5 as stated fails when the clock reads earlier than the stamp of the row, as after the
  clock of the machine has been set back: the status is written, and the \<open>updated_at\<close> read
  back is below the one the row held before the call.
\<close>

theorem update_status_clock_back_counterexample:
  "get_policy two_policies 1 = Some air_quality \<and>
   p_updated_at air_quality = ''2024-03-01T09:00:00'' \<and>
   get_policy (update_policy_status ''2024-02-01T00:00:00'' 1 ''active'' two_policies) 1
     = Some (air_quality\<lparr>p_status := ''active'', p_updated_at := ''2024-02-01T00:00:00''\<rparr>) \<and>
   \<not> p_updated_at air_quality
       \<le> p_updated_at (air_quality\<lparr>p_status := ''active'', p_updated_at := ''2024-02-01T00:00:00''\<rparr>)"
proof -
  have "get_policy (update_policy_status ''2024-02-01T00:00:00'' 1 ''active'' two_policies) 1
     = Some (air_quality\<lparr>p_status := ''active'', p_updated_at := ''2024-02-01T00:00:00''\<rparr>)"
    using get_policy_two_policies
    by (simp add: get_policy_def update_policy_status_def find_update_status)
  moreover have "\<not> p_updated_at air_quality \<le> ''2024-02-01T00:00:00''"
    by (simp add: air_quality_def)
  moreover have "p_updated_at air_quality = ''2024-03-01T09:00:00''"
    by (simp add: air_quality_def)
  ultimately show ?thesis
    using get_policy_two_policies by simp
qed

text \<open>
  C6. \<open>update_policy_status\<close> keeps the number and the order of the policies. A row with
  another id is unchanged; a row with the given id keeps its id, title, category, target
  audience, description and \<open>created_at\<close>. The other tables and the key counters are
  unchanged. When no policy has the id, the database is unchanged; the function has no
  error result.
\<close>

theorem update_status_frame:
  "length (policies (update_policy_status now pid st s)) = length (policies s) \<and>
   (\<forall>i < length (policies s).
      (p_id (policies s ! i) \<noteq> pid \<longrightarrow>
         policies (update_policy_status now pid st s) ! i = policies s ! i) \<and>
      (p_id (policies s ! i) = pid \<longrightarrow>
         p_id (policies (update_policy_status now pid st s) ! i) = p_id (policies s ! i) \<and>
         p_title (policies (update_policy_status now pid st s) ! i) = p_title (policies s ! i) \<and>
         p_category (policies (update_policy_status now pid st s) ! i)
           = p_category (policies s ! i) \<and>
         p_target_audience (policies (update_policy_status now pid st s) ! i)
           = p_target_audience (policies s ! i) \<and>
         p_description (policies (update_policy_status now pid st s) ! i)
           = p_description (policies s ! i) \<and>
         p_created_at (policies (update_policy_status now pid st s) ! i)
           = p_created_at (policies s ! i))) \<and>
   policies_seq (update_policy_status now pid st s) = policies_seq s \<and>
   policy_contents (update_policy_status now pid st s) = policy_contents s \<and>
   policy_contents_seq (update_policy_status now pid st s) = policy_contents_seq s \<and>
   generated_media (update_policy_status now pid st s) = generated_media s \<and>
   generated_media_seq (update_policy_status now pid st s) = generated_media_seq s \<and>
   (get_policy s pid = None \<longrightarrow> update_policy_status now pid st s = s)"
proof -
  have "update_policy_status now pid st s = s" if "get_policy s pid = None"
  proof -
    from that have "\<forall>row \<in> set (policies s). p_id row \<noteq> pid"
      by (auto simp: get_policy_def find_None_iff)
    then have "map (\<lambda>row. if p_id row = pid then row\<lparr>p_status := st, p_updated_at := now\<rparr> else row)
                 (policies s) = policies s"
      by (simp add: map_idI)
    then show ?thesis by (simp add: update_policy_status_def)
  qed
  then show ?thesis by (simp add: update_policy_status_def)
qed

theorem update_status_frame_witness:
  "policies (update_policy_status ''2024-03-05T08:00:00'' 1 ''active'' two_policies) ! 1
     = night_buses \<and>
   p_title (policies (update_policy_status ''2024-03-05T08:00:00'' 1 ''active'' two_policies) ! 0)
     = ''Air quality'' \<and>
   p_created_at (policies (update_policy_status ''2024-03-05T08:00:00'' 1 ''active'' two_policies) ! 0)
     = ''2024-03-01T09:00:00'' \<and>
   get_policy two_policies 7 = None \<and>
   update_policy_status ''2024-03-05T08:00:00'' 7 ''active'' two_policies = two_policies"
proof -
  have none: "get_policy two_policies 7 = None"
    by (simp add: get_policy_def two_policies_def air_quality_def night_buses_def)
  have rows: "policies two_policies = [air_quality, night_buses]"
    by (simp add: two_policies_def)
  have ids: "p_id air_quality = 1" "p_id night_buses = 2"
    by (simp_all add: air_quality_def night_buses_def)
  have fields: "p_title air_quality = ''Air quality''"
    "p_created_at air_quality = ''2024-03-01T09:00:00''"
    by (simp_all add: air_quality_def)
  show ?thesis
    using update_status_frame [of "''2024-03-05T08:00:00''" 1 "''active''" two_policies]
      update_status_frame [of "''2024-03-05T08:00:00''" 7 "''active''" two_policies]
      none rows ids fields
    by (simp add: All_less_Suc2 numeral_2_eq_2)
qed

declare show_nat.simps [simp del]

section \<open>Decoding what was encoded\<close>

subsection \<open>Strings\<close>

lemma skip_ws_Nil [simp]: "skip_ws [] = []"
  by (simp add: skip_ws_def)

lemma skip_ws_Cons: "skip_ws (c # cs) = (if is_ws c then skip_ws cs else c # cs)"
  by (simp add: skip_ws_def)

lemma hex_value_hex_digit: "d < 16 \<Longrightarrow> hex_value (hex_digit d) = Some d"
proof -
  have "list_all (\<lambda>d. hex_value (hex_digit d) = Some d) [0..<16]"
    by code_simp
  then show "d < 16 \<Longrightarrow> hex_value (hex_digit d) = Some d"
    by (simp add: list_all_iff)
qed

lemma decode_control:
  assumes "n < 32"
  shows "decode_uXXXX [CHR ''0'', CHR ''0'', hex_digit (n div 16), hex_digit (n mod 16)] = Some n"
proof -
  have a: "hex_value (hex_digit (n div 16)) = Some (n div 16)"
    using assms by (intro hex_value_hex_digit) auto
  have b: "hex_value (hex_digit (n mod 16)) = Some (n mod 16)"
    by (intro hex_value_hex_digit) auto
  have z: "hex_value CHR ''0'' = Some 0" by (simp add: hex_value_def)
  show ?thesis by (simp add: a b z)
qed

lemma scanstring_escape_char:
  "scanstring chunks (escape_char c @ cs) = scanstring (chunks @ [c]) cs"
proof -
  consider (q) "c = dquote" | (b) "c = backslash" | (n) "c = CHR 0x0A" | (r) "c = CHR 0x0D"
    | (t) "c = CHR 0x09" | (bs) "c = CHR 0x08" | (ff) "c = CHR 0x0C"
    | (ctl) "c \<noteq> dquote" "c \<noteq> backslash" "c \<noteq> CHR 0x0A" "c \<noteq> CHR 0x0D" "c \<noteq> CHR 0x09"
        "c \<noteq> CHR 0x08" "c \<noteq> CHR 0x0C" "(of_char c :: nat) < 0x20"
    | (plain) "c \<noteq> dquote" "c \<noteq> backslash" "\<not> (of_char c :: nat) < 0x20"
    by blast
  then show ?thesis
  proof cases
    case ctl
    have lt: "(of_char c :: nat) < 32" using ctl by simp
    have u: "utf8 (of_char c) = [c]" using lt by (simp add: utf8_def)
    have esc: "escape_char c = [backslash, CHR ''u'', CHR ''0'', CHR ''0'',
        hex_digit (of_char c div 16), hex_digit (of_char c mod 16)]"
      using ctl by (simp add: escape_char_def)
    show ?thesis
      using lt by (simp add: esc decode_control u del: decode_uXXXX.simps)
  next
    case plain
    then have "escape_char c = [c]" by (auto simp: escape_char_def)
    with plain show ?thesis by simp
  qed (simp_all add: escape_char_def backslash_decode_def)
qed

lemma scanstring_escaped:
  "scanstring chunks (concat (map escape_char t) @ dquote # rest) = Inr (chunks @ t, rest)"
  by (induction t arbitrary: chunks) (simp_all add: scanstring_escape_char)

lemma scanstring_encode_basestring:
  "encode_basestring t @ rest = dquote # cs \<Longrightarrow> scanstring [] cs = Inr (t, rest)"
  using scanstring_escaped [of "[]" t rest] by (simp add: encode_basestring_def)

subsection \<open>Integers\<close>

lemma digit_char_facts:
  assumes "d < 10"
  shows "is_digit (digit_char d)" and "digit_value (digit_char d) = d"
    and "digit_char d = CHR ''0'' \<longleftrightarrow> d = 0"
proof -
  have "list_all (\<lambda>d. is_digit (digit_char d) \<and> digit_value (digit_char d) = d \<and>
          (digit_char d = CHR ''0'' \<longleftrightarrow> d = 0)) [0..<10]"
    by code_simp
  with assms show "is_digit (digit_char d)" and "digit_value (digit_char d) = d"
    and "digit_char d = CHR ''0'' \<longleftrightarrow> d = 0"
    by (simp_all add: list_all_iff)
qed

lemma show_nat_digits: "list_all is_digit (show_nat n)"
  by (induction n rule: show_nat.induct) (subst show_nat.simps, simp add: digit_char_facts)

lemma show_nat_not_Nil: "show_nat n \<noteq> []"
  by (subst show_nat.simps) simp

lemma show_nat_hd: "0 < n \<Longrightarrow> hd (show_nat n) \<noteq> CHR ''0''"
proof (induction n rule: show_nat.induct)
  case (1 n)
  show ?case
  proof (cases "n < 10")
    case True
    with "1.prems" show ?thesis
      by (subst show_nat.simps) (simp add: digit_char_facts)
  next
    case False
    then have "0 < n div 10" by simp
    with False "1.IH" have "hd (show_nat (n div 10)) \<noteq> CHR ''0''" by simp
    with False show ?thesis
      by (subst show_nat.simps) (simp add: show_nat_not_Nil)
  qed
qed

lemma nat_of_digits_snoc: "nat_of_digits (ds @ [d]) = 10 * nat_of_digits ds + digit_value d"
  by (simp add: nat_of_digits_def)

lemma nat_of_digits_show_nat: "nat_of_digits (show_nat n) = n"
proof (induction n rule: show_nat.induct)
  case (1 n)
  show ?case
  proof (cases "n < 10")
    case True
    then show ?thesis
      by (subst show_nat.simps) (simp add: nat_of_digits_def digit_char_facts)
  next
    case False
    with "1.IH" have "nat_of_digits (show_nat (n div 10)) = n div 10" by simp
    with False show ?thesis
      by (subst show_nat.simps) (simp add: nat_of_digits_snoc digit_char_facts)
  qed
qed

lemma delim_not_digit: "delim (c # cs) \<Longrightarrow> \<not> is_digit c"
  by (auto simp: delim_def is_digit_def)

lemma takeWhile_digits:
  "delim rest \<Longrightarrow> list_all is_digit ds \<Longrightarrow>
   takeWhile is_digit (ds @ rest) = ds \<and> dropWhile is_digit (ds @ rest) = rest"
proof (induction ds)
  case Nil
  then show ?case by (cases rest) (simp_all add: delim_not_digit)
next
  case (Cons d ds)
  then show ?case by simp
qed

lemma match_integer_show_nat:
  assumes "delim rest"
  shows "match_integer (show_nat n @ rest) = Some (show_nat n, rest)"
proof (cases "n = 0")
  case True
  have "show_nat 0 = [CHR ''0'']"
    using digit_char_facts(3) [of 0] by (subst show_nat.simps) simp
  with True show ?thesis by (simp add: match_integer_def)
next
  case False
  obtain c cs where eq: "show_nat n = c # cs"
    using show_nat_not_Nil [of n] by (cases "show_nat n") auto
  with False show_nat_hd [of n] have c0: "c \<noteq> CHR ''0''" by simp
  from eq show_nat_digits [of n] have dc: "is_digit c" by simp
  have "takeWhile is_digit (show_nat n @ rest) = show_nat n \<and>
        dropWhile is_digit (show_nat n @ rest) = rest"
    using assms show_nat_digits by (rule takeWhile_digits)
  with eq c0 dc show ?thesis by (simp add: match_integer_def)
qed

lemma delim_not_float: "delim rest \<Longrightarrow> \<not> is_frac rest \<and> \<not> is_exp rest"
  by (auto simp: delim_def is_frac_def is_exp_def split: list.splits)

lemma show_nat_first: "\<exists>c cs. show_nat n = c # cs \<and> is_digit c"
  using show_nat_not_Nil [of n] show_nat_digits [of n] by (cases "show_nat n") auto

lemma parse_number_show_int:
  assumes "delim rest"
  shows "parse_number (show_int i @ rest) = Inr (PInt i, rest)"
proof (cases "i < 0")
  case True
  then show ?thesis
    by (simp add: parse_number_def show_int_def match_integer_show_nat [OF assms]
        delim_not_float [OF assms] nat_of_digits_show_nat)
next
  case False
  obtain c cs where eq: "show_nat (nat i) = c # cs" and dc: "is_digit c"
    using show_nat_first by blast
  from dc have "c \<noteq> CHR ''-''" by (auto simp: is_digit_def)
  with False eq have neg: "(case show_int i @ rest of c # _ \<Rightarrow> c = CHR ''-'' | [] \<Rightarrow> False) = False"
    by (simp add: show_int_def)
  have "match_integer (show_int i @ rest) = Some (show_nat (nat i), rest)"
    using False match_integer_show_nat [OF assms, of "nat i"] by (simp add: show_int_def)
  with False show ?thesis
    unfolding parse_number_def neg
    by (simp add: delim_not_float [OF assms] nat_of_digits_show_nat)
qed

lemma show_int_first: "\<exists>c cs. show_int i = c # cs \<and> (c = CHR ''-'' \<or> is_digit c)"
  using show_nat_first [of "nat i"] by (auto simp: show_int_def)

lemma number_start:
  "c = CHR ''-'' \<or> is_digit c \<Longrightarrow>
   c \<noteq> dquote \<and> c \<noteq> CHR ''{'' \<and> c \<noteq> CHR ''['' \<and> c \<noteq> CHR ''n'' \<and> c \<noteq> CHR ''t'' \<and>
   c \<noteq> CHR ''f'' \<and> c \<noteq> CHR '']'' \<and> c \<noteq> CHR ''}'' \<and> \<not> is_ws c"
  by (auto simp: is_digit_def is_ws_def)

lemma scan_once_int:
  assumes "delim rest"
  shows "scan_once (Suc n) (show_int i @ rest) = Inr (PInt i, rest)"
proof -
  obtain c cs where eq: "show_int i = c # cs" and c: "c = CHR ''-'' \<or> is_digit c"
    using show_int_first by blast
  have "scan_once (Suc n) (c # cs @ rest) = parse_number (c # cs @ rest)"
    using number_start [OF c] by simp
  then show ?thesis
    using parse_number_show_int [OF assms, of i] by (simp add: eq)
qed

subsection \<open>Arrays and objects\<close>

lemma json_dumps_first:
  "\<exists>c cs. json_dumps v = c # cs \<and> \<not> is_ws c \<and> c \<noteq> CHR '']'' \<and> c \<noteq> CHR ''}''"
proof (cases v)
  case PNone
  then show ?thesis by (simp add: is_ws_def)
next
  case (PBool b)
  then show ?thesis by (cases b) (simp_all add: is_ws_def)
next
  case (PInt i)
  obtain c cs where eq: "show_int i = c # cs" and c: "c = CHR ''-'' \<or> is_digit c"
    using show_int_first by blast
  from number_start [OF c] eq PInt show ?thesis by simp
next
  case (PStr t)
  then show ?thesis by (simp add: is_ws_def encode_basestring_def)
next
  case (PList vs)
  then show ?thesis by (simp add: is_ws_def)
next
  case (PDict kvs)
  then show ?thesis by (simp add: is_ws_def)
qed

lemma skip_ws_json_dumps: "skip_ws (json_dumps v @ rest) = json_dumps v @ rest"
  using json_dumps_first [of v] by (auto simp: skip_ws_Cons)

lemma skip_ws_blank_json_dumps: "skip_ws (CHR '' '' # json_dumps v @ rest) = json_dumps v @ rest"
  by (simp add: skip_ws_Cons is_ws_def skip_ws_json_dumps)

lemma delim_simps:
  "delim []" "delim (CHR '','' # cs)" "delim (CHR '']'' # cs)" "delim (CHR ''}'' # cs)"
  by (simp_all add: delim_def)

lemma commas_Cons: "commas (x # xs) = x @ (if xs = [] then [] else '', '' @ commas xs)"
  by (cases xs) simp_all

lemma JSONArray_elements:
  assumes "\<And>v n rest. v \<in> set vs \<Longrightarrow> cost v \<le> n \<Longrightarrow> delim rest \<Longrightarrow>
             scan_once n (json_dumps v @ rest) = Inr (v, rest)"
    and "vs \<noteq> []" and "sum_list (map cost vs) + length vs \<le> n"
  shows "JSONArray n values (commas (map json_dumps vs) @ CHR '']'' # rest)
         = Inr (PList (values @ vs), rest)"
  using assms
proof (induction vs arbitrary: n "values")
  case Nil
  then show ?case by simp
next
  case (Cons v vs)
  from Cons.prems(3) obtain m where n: "n = Suc m" by (cases n) auto
  show ?case
  proof (cases vs)
    case Nil
    have "scan_once m (json_dumps v @ CHR '']'' # rest) = Inr (v, CHR '']'' # rest)"
      using Cons.prems(3) n by (intro Cons.prems(1)) (simp_all add: delim_simps)
    then show ?thesis
      by (simp add: Nil n skip_ws_Cons is_ws_def)
  next
    case (Cons w ws)
    let ?more = "commas (map json_dumps vs) @ CHR '']'' # rest"
    have first: "scan_once m (json_dumps v @ CHR '','' # CHR '' '' # ?more)
                 = Inr (v, CHR '','' # CHR '' '' # ?more)"
      using Cons.prems(3) n by (intro Cons.prems(1)) (simp_all add: delim_simps)
    have "skip_ws (CHR '' '' # ?more) = ?more"
      using skip_ws_blank_json_dumps [of w] by (simp add: Cons commas_Cons del: commas.simps)
    moreover have "JSONArray m (values @ [v]) ?more = Inr (PList ((values @ [v]) @ vs), rest)"
      using Cons.prems(1,3) n Cons by (intro Cons.IH) simp_all
    ultimately show ?thesis
      using first by (simp add: Cons n skip_ws_Cons is_ws_def)
  qed
qed

lemma member_text_tail: "member_text kv = dquote # member_tail kv"
  by (simp add: member_text_def member_tail_def encode_basestring_def)

lemma JSONObject_member:
  assumes "scan_once m (json_dumps v @ after) = Inr (v, after)"
  shows "JSONObject (Suc m) pairs (member_tail (key, v) @ after) =
         (case skip_ws after of
            [] \<Rightarrow> Inl JSONDecodeError
          | d # rest3 \<Rightarrow>
              if d = CHR ''}'' then Inr (PDict (py_dict (pairs @ [(key, v)])), rest3)
              else if d = CHR '','' then
                (case skip_ws rest3 of
                   [] \<Rightarrow> Inl JSONDecodeError
                 | q # rest4 \<Rightarrow>
                     if q = dquote then JSONObject m (pairs @ [(key, v)]) rest4
                     else Inl JSONDecodeError)
              else Inl JSONDecodeError)"
proof -
  have s: "scanstring [] (member_tail (key, v) @ after)
           = Inr (key, CHR '':'' # CHR '' '' # json_dumps v @ after)"
    using scanstring_escaped [of "[]" key "CHR '':'' # CHR '' '' # json_dumps v @ after"]
    by (simp add: member_tail_def)
  have w: "skip_ws (CHR '':'' # CHR '' '' # json_dumps v @ after)
           = CHR '':'' # CHR '' '' # json_dumps v @ after"
    by (simp add: skip_ws_Cons is_ws_def)
  show ?thesis
    by (simp add: s w skip_ws_blank_json_dumps assms)
qed

lemma JSONObject_members:
  assumes "\<And>kv n rest. kv \<in> set kvs \<Longrightarrow> cost (snd kv) \<le> n \<Longrightarrow> delim rest \<Longrightarrow>
             scan_once n (json_dumps (snd kv) @ rest) = Inr (snd kv, rest)"
    and "kvs \<noteq> []" and "sum_list (map (\<lambda>kv. cost (snd kv)) kvs) + length kvs \<le> n"
    and "commas (map member_text kvs) @ CHR ''}'' # rest = dquote # cs"
  shows "JSONObject n pairs cs = Inr (PDict (py_dict (pairs @ kvs)), rest)"
  using assms
proof (induction kvs arbitrary: n pairs cs)
  case Nil
  then show ?case by simp
next
  case (Cons kv kvs)
  obtain key v where kv: "kv = (key, v)" by (cases kv)
  from Cons.prems(3) obtain m where n: "n = Suc m" by (cases n) auto
  show ?case
  proof (cases kvs)
    case Nil
    have cs: "cs = member_tail (key, v) @ CHR ''}'' # rest"
      using Cons.prems(4) by (simp add: Nil kv member_text_tail)
    have "scan_once m (json_dumps v @ CHR ''}'' # rest) = Inr (v, CHR ''}'' # rest)"
      using Cons.prems(1) [of kv m "CHR ''}'' # rest"] Cons.prems(3) n
      by (simp add: kv delim_simps)
    from JSONObject_member [OF this, of pairs key] show ?thesis
      by (simp add: cs n Nil kv skip_ws_Cons is_ws_def)
  next
    case (Cons kv' kvs')
    have "commas (map member_text kvs) = dquote # member_tail kv' @
            (if kvs' = [] then [] else '', '' @ commas (map member_text kvs'))"
      by (simp add: Cons commas_Cons member_text_tail del: commas.simps)
    then obtain cs' where cs': "commas (map member_text kvs) @ CHR ''}'' # rest = dquote # cs'"
      by simp
    have "dquote # cs = member_text kv @ '', '' @ (commas (map member_text kvs) @ CHR ''}'' # rest)"
      using Cons.prems(4) by (simp add: Cons)
    then have "dquote # cs = member_text kv @ '', '' @ dquote # cs'"
      by (simp only: cs')
    then have cs: "cs = member_tail (key, v) @ CHR '','' # CHR '' '' # dquote # cs'"
      by (simp add: member_text_tail kv)
    have "scan_once m (json_dumps v @ CHR '','' # CHR '' '' # dquote # cs')
          = Inr (v, CHR '','' # CHR '' '' # dquote # cs')"
      using Cons.prems(1) [of kv m "CHR '','' # CHR '' '' # dquote # cs'"] Cons.prems(3) n
      by (simp add: kv delim_simps)
    from JSONObject_member [OF this, of pairs key]
    have step: "JSONObject n pairs cs = JSONObject m (pairs @ [(key, v)]) cs'"
      by (simp add: cs n skip_ws_Cons is_ws_def)
    have "JSONObject m (pairs @ [(key, v)]) cs' = Inr (PDict (py_dict ((pairs @ [(key, v)]) @ kvs)), rest)"
      using Cons.prems(1,3) n Cons cs' by (intro Cons.IH) simp_all
    with step show ?thesis by (simp add: kv)
  qed
qed

subsection \<open>Values\<close>

lemma dict_set_new: "fst kv \<notin> fst ` set d \<Longrightarrow> dict_set d kv = d @ [kv]"
  by (induction d) auto

lemma foldl_dict_set_distinct:
  "distinct (map fst (d @ kvs)) \<Longrightarrow> foldl dict_set d kvs = d @ kvs"
proof (induction kvs arbitrary: d)
  case Nil
  then show ?case by simp
next
  case (Cons kv kvs)
  from Cons.prems have "fst kv \<notin> fst ` set d" by auto
  then have "dict_set d kv = d @ [kv]" by (rule dict_set_new)
  moreover from Cons.prems have "distinct (map fst ((d @ [kv]) @ kvs))" by simp
  ultimately show ?case using Cons.IH [of "d @ [kv]"] by simp
qed

lemma py_dict_distinct: "distinct (map fst kvs) \<Longrightarrow> py_dict kvs = kvs"
  using foldl_dict_set_distinct [of "[]" kvs] by (simp add: py_dict_def)

lemma json_dumps_PDict:
  "json_dumps (PDict kvs) = CHR ''{'' # commas (map member_text kvs) @ ''}''"
proof -
  have "member_text = (\<lambda>kv. encode_basestring (fst kv) @ '': '' @ json_dumps (snd kv))"
    by (rule ext) (simp add: member_text_def)
  then show ?thesis by simp
qed

lemma scan_once_json_dumps:
  "wf_pyval v \<Longrightarrow> cost v \<le> n \<Longrightarrow> delim rest \<Longrightarrow>
   scan_once n (json_dumps v @ rest) = Inr (v, rest)"
proof (induction v arbitrary: n rest)
  case PNone
  then obtain m where "n = Suc m" by (cases n) auto
  then show ?case by simp
next
  case (PBool b)
  then obtain m where "n = Suc m" by (cases n) auto
  then show ?case by (cases b) simp_all
next
  case (PInt i)
  then obtain m where "n = Suc m" by (cases n) auto
  with PInt.prems(3) show ?case by (simp add: scan_once_int del: scan_once.simps)
next
  case (PStr t)
  then obtain m where "n = Suc m" by (cases n) auto
  then show ?case
    by (simp add: encode_basestring_def scanstring_escaped)
next
  case (PList vs)
  then obtain m where n: "n = Suc m" by (cases n) auto
  show ?case
  proof (cases vs)
    case Nil
    then show ?thesis by (simp add: n skip_ws_Cons is_ws_def)
  next
    case (Cons w ws)
    obtain c cs where first: "json_dumps w = c # cs" "\<not> is_ws c" "c \<noteq> CHR '']''"
      using json_dumps_first by blast
    let ?body = "commas (map json_dumps vs) @ CHR '']'' # rest"
    have body: "?body = c # cs @ (if ws = [] then [] else '', '' @ commas (map json_dumps ws))
                  @ CHR '']'' # rest"
      by (simp add: Cons commas_Cons first del: commas.simps)
    have "JSONArray m [] ?body = Inr (PList ([] @ vs), rest)"
    proof (rule JSONArray_elements)
      show "vs \<noteq> []" by (simp add: Cons)
      show "sum_list (map cost vs) + length vs \<le> m" using PList.prems(2) n by simp
      fix v k r
      assume "v \<in> set vs" "cost v \<le> k" "delim r"
      with PList.IH [of v k r] PList.prems(1)
      show "scan_once k (json_dumps v @ r) = Inr (v, r)" by (simp add: list_all_iff)
    qed
    then have "JSONArray m [] ?body = Inr (PList vs, rest)" by simp
    moreover have "scan_once (Suc m) (CHR ''['' # ?body) = JSONArray m [] ?body"
      unfolding body using first by (simp add: skip_ws_Cons)
    ultimately show ?thesis by (simp add: n)
  qed
next
  case (PDict kvs)
  then obtain m where n: "n = Suc m" by (cases n) auto
  show ?case
  proof (cases kvs)
    case Nil
    then show ?thesis by (simp add: n skip_ws_Cons is_ws_def)
  next
    case (Cons kv kvs')
    have "commas (map member_text kvs) = dquote # member_tail kv @
            (if kvs' = [] then [] else '', '' @ commas (map member_text kvs'))"
      by (simp add: Cons commas_Cons member_text_tail del: commas.simps)
    then obtain cs where cs: "commas (map member_text kvs) @ CHR ''}'' # rest = dquote # cs"
      by simp
    have "JSONObject m [] cs = Inr (PDict (py_dict ([] @ kvs)), rest)"
    proof (rule JSONObject_members)
      show "kvs \<noteq> []" by (simp add: Cons)
      show "sum_list (map (\<lambda>kv. cost (snd kv)) kvs) + length kvs \<le> m"
        using PDict.prems(2) n by simp
      show "commas (map member_text kvs) @ CHR ''}'' # rest = dquote # cs" by (rule cs)
      fix kv k r
      assume "kv \<in> set kvs" "cost (snd kv) \<le> k" "delim r"
      with PDict.IH [of kv "snd kv" k r] PDict.prems(1)
      show "scan_once k (json_dumps (snd kv) @ r) = Inr (snd kv, r)"
        by (cases kv) (auto simp: list_all_iff)
    qed
    with PDict.prems(1) have obj: "JSONObject m [] cs = Inr (PDict kvs, rest)"
      by (simp add: py_dict_distinct)
    have "json_dumps (PDict kvs) @ rest = CHR ''{'' # dquote # cs"
      using cs by (simp only: json_dumps_PDict) simp
    then show ?thesis
      by (simp add: n skip_ws_Cons is_ws_def obj)
  qed
qed

lemma length_commas:
  "length (commas xs) = sum_list (map length xs) + 2 * (length xs - 1)"
  by (induction xs rule: commas.induct) simp_all

lemma cost_le_length: "cost v \<le> length (json_dumps v)"
proof (induction v)
  case (PList vs)
  then have "sum_list (map cost vs) \<le> sum_list (map (length \<circ> json_dumps) vs)"
    by (intro sum_list_mono) simp
  then show ?case
    by (cases vs) (simp_all add: length_commas comp_def)
next
  case (PDict kvs)
  have "cost (snd kv) \<le> length (member_text kv)" if "kv \<in> set kvs" for kv
    using PDict [of kv "snd kv"] that by (cases kv) (simp add: member_text_def)
  then have "sum_list (map (\<lambda>kv. cost (snd kv)) kvs) \<le> sum_list (map (length \<circ> member_text) kvs)"
    by (intro sum_list_mono) simp
  then show ?case
    by (cases kvs) (simp_all only: json_dumps_PDict, simp_all add: length_commas comp_def)
qed (simp_all add: encode_basestring_def show_int_def show_nat_not_Nil Suc_le_eq)

text \<open>
  Decoding the encoding of a well-formed value gives the value back, and the bound that
  \<open>json_loads\<close> passes to the scanner is enough for it.
\<close>

theorem json_loads_json_dumps: "wf_pyval v \<Longrightarrow> json_loads (json_dumps v) = Inr v"
proof -
  assume wf: "wf_pyval v"
  have "cost v \<le> 2 * length (json_dumps v) + 1"
    using cost_le_length [of v] by simp
  with wf have "scan_once (2 * length (json_dumps v) + 1) (json_dumps v @ []) = Inr (v, [])"
    by (intro scan_once_json_dumps) (simp_all add: delim_simps)
  then show ?thesis
    using skip_ws_json_dumps [of v "[]"] by (simp add: json_loads_def)
qed

subsection \<open>The bound of the scanner\<close>

text \<open>
  Each function of the decoder returns a suffix of its input, so a bound of twice the
  length of the text, plus one, is never used up.
\<close>

lemma length_skip_ws: "length (skip_ws cs) \<le> length cs"
  by (simp add: skip_ws_def length_dropWhile_le)

lemma scanstring_step:
  "scanstring chunks (c # cs) = Inr (t, rest) \<Longrightarrow>
   rest = cs \<or> (\<exists>chunks' cs'. length cs' \<le> length cs \<and> scanstring chunks' cs' = Inr (t, rest))"
  by (simp split: if_splits list.splits option.splits del: decode_uXXXX.simps)
    (metis diff_le_self length_drop le_SucI length_Cons order_refl)+

lemma scanstring_length: "scanstring chunks cs = Inr (t, rest) \<Longrightarrow> length rest < length cs"
proof (induction cs arbitrary: chunks rule: length_induct)
  case (1 cs)
  show ?case
  proof (cases cs)
    case Nil
    with "1.prems" show ?thesis by simp
  next
    case (Cons c cs1)
    from scanstring_step [OF "1.prems" [unfolded Cons]]
    consider "rest = cs1"
      | chunks' cs' where "length cs' \<le> length cs1" "scanstring chunks' cs' = Inr (t, rest)"
      by blast
    then show ?thesis
    proof cases
      case 1
      then show ?thesis by (simp add: Cons)
    next
      case 2
      from 2(1) have "length cs' < length cs" by (simp add: Cons)
      with "1.IH" 2(2) have "length rest < length cs'" by blast
      with 2(1) show ?thesis by (simp add: Cons)
    qed
  qed
qed

lemma parse_number_length: "parse_number cs = Inr (v, rest) \<Longrightarrow> length rest \<le> length cs"
proof -
  have drop: "length (dropWhile is_digit xs) \<le> length xs" for xs
    by (rule length_dropWhile_le)
  have m: "match_integer xs = Some (ds, r) \<Longrightarrow> length r \<le> length xs" for xs ds r
    using drop [of xs] by (auto simp: match_integer_def split: list.splits if_splits)
  assume "parse_number cs = Inr (v, rest)"
  then show ?thesis
    using m [of cs _ rest] m [of "tl cs" _ rest]
    by (auto simp: parse_number_def Let_def split: option.splits if_splits list.splits)
qed

lemma skip_ws_Cons_length: "skip_ws cs = d # rest \<Longrightarrow> length rest < length cs"
  using length_skip_ws [of cs] by simp

lemma scan_length:
  "(scan_once n cs = Inr (v, rest) \<longrightarrow> length rest \<le> length cs) \<and>
   (JSONArray n vs cs = Inr (v, rest) \<longrightarrow> length rest \<le> length cs) \<and>
   (JSONObject n kvs cs = Inr (v, rest) \<longrightarrow> length rest \<le> length cs)"
proof (induction n arbitrary: cs vs kvs v rest)
  case 0
  show ?case by simp
next
  case (Suc n)
  have scan: "length r \<le> length xs" if "scan_once n xs = Inr (x, r)" for xs x r
    using Suc [of xs x r] that by blast
  have arr: "length r \<le> length xs" if "JSONArray n ys xs = Inr (x, r)" for xs ys x r
    using Suc [of xs x r ys] that by blast
  have obj: "length r \<le> length xs" if "JSONObject n ys xs = Inr (x, r)" for xs ys x r
    using Suc [of xs x r _ ys] that by blast
  have P: "length rest \<le> length cs" if h: "scan_once (Suc n) cs = Inr (v, rest)"
  proof (cases cs)
    case Nil
    with h show ?thesis by simp
  next
    case (Cons c cs')
    consider (str) "c = dquote" | (ob) "c \<noteq> dquote" "c = CHR ''{''"
      | (ar) "c \<noteq> dquote" "c \<noteq> CHR ''{''" "c = CHR ''[''"
      | (other) "c \<noteq> dquote" "c \<noteq> CHR ''{''" "c \<noteq> CHR ''[''"
      by blast
    then show ?thesis
    proof cases
      case str
      with h Cons obtain t where "scanstring [] cs' = Inr (t, rest)"
        by (auto split: sum.splits)
      from scanstring_length [OF this] show ?thesis by (simp add: Cons)
    next
      case ob
      show ?thesis
      proof (cases "skip_ws cs'")
        case Nil
        with h Cons ob show ?thesis by simp
      next
        case (Cons d r)
        note sk = skip_ws_Cons_length [OF Cons]
        from h \<open>cs = c # cs'\<close> ob Cons
        have "rest = r \<or> JSONObject n [] r = Inr (v, rest)"
          by (auto split: if_splits)
        then show ?thesis
          using sk obj [of "[]" r v rest] by (auto simp: \<open>cs = c # cs'\<close>)
      qed
    next
      case ar
      show ?thesis
      proof (cases "skip_ws cs'")
        case Nil
        with h Cons ar show ?thesis by simp
      next
        case (Cons d r)
        note sk = skip_ws_Cons_length [OF Cons]
        from h \<open>cs = c # cs'\<close> ar Cons
        have "rest = r \<or> JSONArray n [] (d # r) = Inr (v, rest)"
          by (auto split: if_splits)
        then show ?thesis
          using sk arr [of "[]" "d # r" v rest] by (auto simp: \<open>cs = c # cs'\<close>)
      qed
    next
      case other
      with h Cons have "rest = drop 4 cs \<or> rest = drop 5 cs \<or> parse_number cs = Inr (v, rest)"
        by (auto split: if_splits)
      then show ?thesis
        using parse_number_length [of cs v rest] by auto
    qed
  qed
  have Q: "length rest \<le> length cs" if h: "JSONArray (Suc n) vs cs = Inr (v, rest)"
  proof -
    from h obtain x r where x: "scan_once n cs = Inr (x, r)"
      by (auto split: sum.splits)
    from scan [OF x] have r: "length r \<le> length cs" .
    show ?thesis
    proof (cases "skip_ws r")
      case Nil
      with h x show ?thesis by simp
    next
      case (Cons d r')
      note sk = skip_ws_Cons_length [OF Cons]
      from h x Cons have "rest = r' \<or> JSONArray n (vs @ [x]) (skip_ws r') = Inr (v, rest)"
        by (auto split: if_splits)
      then show ?thesis
        using sk r arr [of "vs @ [x]" "skip_ws r'" v rest] length_skip_ws [of r'] by auto
    qed
  qed
  have R: "length rest \<le> length cs" if h: "JSONObject (Suc n) kvs cs = Inr (v, rest)"
  proof -
    from h obtain key r where k: "scanstring [] cs = Inr (key, r)"
      by (auto split: sum.splits)
    from scanstring_length [OF k] have r: "length r < length cs" .
    from h k obtain c r1 where c: "skip_ws r = c # r1"
      by (cases "skip_ws r") auto
    note l1 = skip_ws_Cons_length [OF c]
    from h k c obtain x r2 where x: "scan_once n (skip_ws r1) = Inr (x, r2)"
      by (auto split: sum.splits if_splits)
    from scan [OF x] length_skip_ws [of r1] have l2: "length r2 \<le> length r1" by simp
    from h k c x obtain d r3 where d: "skip_ws r2 = d # r3"
      by (cases "skip_ws r2") (auto split: if_splits)
    note l3 = skip_ws_Cons_length [OF d]
    from h k c x d have "rest = r3 \<or>
        (\<exists>q r4. skip_ws r3 = q # r4 \<and> JSONObject n (kvs @ [(key, x)]) r4 = Inr (v, rest))"
      by (auto split: if_splits list.splits)
    then show ?thesis
    proof
      assume "rest = r3"
      with r l1 l2 l3 show ?thesis by simp
    next
      assume "\<exists>q r4. skip_ws r3 = q # r4 \<and> JSONObject n (kvs @ [(key, x)]) r4 = Inr (v, rest)"
      then obtain q r4 where q: "skip_ws r3 = q # r4"
        and o: "JSONObject n (kvs @ [(key, x)]) r4 = Inr (v, rest)" by blast
      from obj [OF o] skip_ws_Cons_length [OF q] r l1 l2 l3 show ?thesis by simp
    qed
  qed
  from P Q R show ?case by blast
qed

lemma scanstring_no_fuel: "scanstring chunks cs \<noteq> Inl OutOfFuel"
  by (induction chunks cs rule: scanstring.induct)
    (simp_all split: list.splits option.splits del: decode_uXXXX.simps)

lemma parse_number_no_fuel: "parse_number cs \<noteq> Inl OutOfFuel"
  by (simp add: parse_number_def Let_def split: option.splits)

lemma scan_once_length: "scan_once n cs = Inr (v, rest) \<Longrightarrow> length rest \<le> length cs"
  using scan_length [of n cs v rest] by blast

lemma scan_fuel:
  "(2 * length cs < n \<longrightarrow> scan_once n cs \<noteq> Inl OutOfFuel) \<and>
   (2 * length cs + 1 < n \<longrightarrow> JSONArray n vs cs \<noteq> Inl OutOfFuel) \<and>
   (2 * length cs + 1 < n \<longrightarrow> JSONObject n kvs cs \<noteq> Inl OutOfFuel)"
proof (induction n arbitrary: cs vs kvs)
  case 0
  show ?case by simp
next
  case (Suc n)
  have scan: "scan_once n xs \<noteq> Inl OutOfFuel" if "2 * length xs < n" for xs
    using Suc [of xs] that by blast
  have arr: "JSONArray n ys xs \<noteq> Inl OutOfFuel" if "2 * length xs + 1 < n" for xs ys
    using Suc [of xs ys] that by blast
  have obj: "JSONObject n ys xs \<noteq> Inl OutOfFuel" if "2 * length xs + 1 < n" for xs ys
    using Suc [of xs _ ys] that by blast
  have P: "scan_once (Suc n) cs \<noteq> Inl OutOfFuel" if n: "2 * length cs < Suc n"
  proof (cases cs)
    case Nil
    then show ?thesis by simp
  next
    case (Cons c cs')
    from n Cons have n': "2 * length cs' + 1 < n" by simp
    consider (str) "c = dquote" | (ob) "c \<noteq> dquote" "c = CHR ''{''"
      | (ar) "c \<noteq> dquote" "c \<noteq> CHR ''{''" "c = CHR ''[''"
      | (other) "c \<noteq> dquote" "c \<noteq> CHR ''{''" "c \<noteq> CHR ''[''"
      by blast
    then show ?thesis
    proof cases
      case str
      show ?thesis
      proof (cases "scanstring [] cs'")
        case (Inl e)
        with scanstring_no_fuel [of "[]" cs'] Cons str show ?thesis by simp
      next
        case (Inr p)
        with Cons str show ?thesis by (cases p) simp
      qed
    next
      case ob
      show ?thesis
      proof (cases "skip_ws cs'")
        case Nil
        with Cons ob show ?thesis by simp
      next
        case sk: (Cons d r)
        from skip_ws_Cons_length [OF sk] n' have "2 * length r + 1 < n" by simp
        from obj [OF this, of "[]"] Cons ob sk show ?thesis by simp
      qed
    next
      case ar
      show ?thesis
      proof (cases "skip_ws cs'")
        case Nil
        with Cons ar show ?thesis by simp
      next
        case sk: (Cons d r)
        from skip_ws_Cons_length [OF sk] n' have "2 * length (d # r) + 1 < n" by simp
        from arr [OF this, of "[]"] Cons ar sk show ?thesis by simp
      qed
    next
      case other
      have "scan_once (Suc n) (c # cs') = Inr (PNone, drop 4 (c # cs')) \<or>
            scan_once (Suc n) (c # cs') = Inr (PBool True, drop 4 (c # cs')) \<or>
            scan_once (Suc n) (c # cs') = Inr (PBool False, drop 5 (c # cs')) \<or>
            scan_once (Suc n) (c # cs') = parse_number (c # cs')"
        using other by (simp del: take_Suc_Cons drop_Suc_Cons)
      with parse_number_no_fuel [of "c # cs'"] Cons show ?thesis
        by (auto simp del: scan_once.simps)
    qed
  qed
  have Q: "JSONArray (Suc n) vs cs \<noteq> Inl OutOfFuel" if n: "2 * length cs + 1 < Suc n"
  proof (cases "scan_once n cs")
    case (Inl e)
    from n have "2 * length cs < n" by simp
    from scan [OF this] Inl show ?thesis by auto
  next
    case (Inr p)
    obtain x r where p: "p = (x, r)" by (cases p)
    from Inr p have "scan_once n cs = Inr (x, r)" by simp
    from scan_once_length [OF this] have r: "length r \<le> length cs" .
    show ?thesis
    proof (cases "skip_ws r")
      case Nil
      with Inr p show ?thesis by simp
    next
      case (Cons d r')
      from skip_ws_Cons_length [OF Cons] length_skip_ws [of r'] r n
      have "2 * length (skip_ws r') + 1 < n" by simp
      from arr [OF this] Inr p Cons show ?thesis by simp
    qed
  qed
  have R: "JSONObject (Suc n) kvs cs \<noteq> Inl OutOfFuel" if n: "2 * length cs + 1 < Suc n"
  proof (cases "scanstring [] cs")
    case (Inl e)
    with scanstring_no_fuel [of "[]" cs] show ?thesis by auto
  next
    case (Inr p)
    obtain key r where p: "p = (key, r)" by (cases p)
    from scanstring_length [of "[]" cs key r] Inr p have r: "length r < length cs" by simp
    show ?thesis
    proof (cases "skip_ws r")
      case Nil
      with Inr p show ?thesis by simp
    next
      case (Cons c r1)
      note l1 = skip_ws_Cons_length [OF Cons]
      from l1 r n length_skip_ws [of r1] have f: "2 * length (skip_ws r1) < n" by simp
      show ?thesis
      proof (cases "scan_once n (skip_ws r1)")
        case (Inl e)
        with scan [OF f] Inr p Cons show ?thesis by auto
      next
        case inner: (Inr p2)
        obtain x r2 where p2: "p2 = (x, r2)" by (cases p2)
        from inner p2 have "scan_once n (skip_ws r1) = Inr (x, r2)" by simp
        from scan_once_length [OF this] length_skip_ws [of r1]
        have l2: "length r2 \<le> length r1" by simp
        show ?thesis
        proof (cases "skip_ws r2")
          case Nil
          with Inr p Cons inner p2 show ?thesis by simp
        next
          case d: (Cons d r3)
          note l3 = skip_ws_Cons_length [OF d]
          show ?thesis
          proof (cases "skip_ws r3")
            case Nil
            with Inr p Cons inner p2 d show ?thesis by simp
          next
            case q: (Cons q r4)
            from skip_ws_Cons_length [OF q] l1 l2 l3 r n have "2 * length r4 + 1 < n" by simp
            from obj [OF this] Inr p Cons inner p2 d q show ?thesis by simp
          qed
        qed
      qed
    qed
  qed
  from P Q R show ?case by blast
qed

text \<open>
  \<open>json_loads\<close> answers every text with a value, a decoding error or \<open>FloatValue\<close>: the
  bound it passes to the scanner never decides the answer.
\<close>

theorem json_loads_no_fuel: "json_loads t \<noteq> Inl OutOfFuel"
proof -
  have "2 * length (skip_ws t) < 2 * length t + 1"
    using length_skip_ws [of t] by simp
  with scan_fuel [of "skip_ws t" "2 * length t + 1"]
  have "scan_once (2 * length t + 1) (skip_ws t) \<noteq> Inl OutOfFuel" by blast
  then show ?thesis
    by (cases "scan_once (2 * length t + 1) (skip_ws t)")
      (auto simp: json_loads_def split: if_splits simp del: scan_once.simps)
qed

section \<open>Properties of the repositories\<close>

subsection \<open>Fresh identifiers\<close>

lemma fold_max_ge: "(seq::int) \<le> fold max ids seq"
  by (induction ids arbitrary: seq) (auto intro: order_trans [OF max.cobounded2])

lemma fold_max_ge_elem: "i \<in> set ids \<Longrightarrow> (i::int) \<le> fold max ids seq"
proof (induction ids arbitrary: seq)
  case Nil
  then show ?case by simp
next
  case (Cons j ids)
  then show ?case
    using fold_max_ge [of "max j seq" ids] by auto
qed

lemma next_rowid_gt_seq: "seq < next_rowid seq ids"
  using fold_max_ge [of seq ids] by (simp add: next_rowid_def)

lemma next_rowid_gt_elem: "i \<in> set ids \<Longrightarrow> i < next_rowid seq ids"
  using fold_max_ge_elem [of i ids seq] by (simp add: next_rowid_def)

lemma run_call_seq_mono: "policies_seq s \<le> policies_seq (run_call c s)"
  using next_rowid_gt_seq [of "policies_seq s" "map p_id (policies s)"]
  by (cases c)
    (simp_all add: create_policy_def update_policy_status_def save_policy_content_def
      save_generated_media_def Let_def)

lemma fold_run_call_seq_mono: "policies_seq s \<le> policies_seq (fold run_call cs s)"
proof (induction cs arbitrary: s)
  case Nil
  then show ?case by simp
next
  case (Cons c cs)
  have "policies_seq s \<le> policies_seq (run_call c s)" by (rule run_call_seq_mono)
  also have "\<dots> \<le> policies_seq (fold run_call cs (run_call c s))" by (rule Cons.IH)
  finally show ?case by simp
qed

lemma find_append_new:
  "\<forall>row \<in> set rows. \<not> P row \<Longrightarrow> P new \<Longrightarrow> find P (rows @ [new]) = Some new"
  by (induction rows) auto

lemma create_policy_fst:
  "fst (create_policy now t c a d s) = next_rowid (policies_seq s) (map p_id (policies s))"
  by (simp add: create_policy_def Let_def)

lemma create_policy_seq:
  "policies_seq (snd (create_policy now t c a d s)) = fst (create_policy now t c a d s)"
  by (simp add: create_policy_def Let_def)

text \<open>
  C1. The identifier \<open>create_policy\<close> returns is greater than the identifier of every
  policy in the table, and a later \<open>create_policy\<close>, after any calls of the writing
  functions in between, returns a greater one. \<open>get_policy\<close> on the returned identifier,
  right after the call, gives the row with the title, category, target audience and
  description of the call, status \<open>draft\<close>, and \<open>created_at\<close> and \<open>updated_at\<close> both equal
  to the clock reading of the call.
\<close>

theorem create_policy_fresh_id:
  "fst (create_policy now t c a d s)
     < fst (create_policy now' t' c' a' d' (fold run_call calls (snd (create_policy now t c a d s)))) \<and>
   (\<forall>row \<in> set (policies s). p_id row < fst (create_policy now t c a d s)) \<and>
   get_policy (snd (create_policy now t c a d s)) (fst (create_policy now t c a d s))
     = Some \<lparr>p_id = fst (create_policy now t c a d s), p_title = t, p_category = c,
              p_target_audience = a, p_description = d, p_status = ''draft'',
              p_created_at = now, p_updated_at = now\<rparr>"
proof -
  let ?i = "fst (create_policy now t c a d s)"
  let ?s1 = "snd (create_policy now t c a d s)"
  let ?s2 = "fold run_call calls ?s1"
  have old: "\<forall>row \<in> set (policies s). p_id row < ?i"
    by (simp add: create_policy_fst next_rowid_gt_elem)
  have "?i = policies_seq ?s1" by (simp add: create_policy_seq)
  also have "\<dots> \<le> policies_seq ?s2" by (rule fold_run_call_seq_mono)
  also have "\<dots> < fst (create_policy now' t' c' a' d' ?s2)"
    by (simp add: create_policy_fst next_rowid_gt_seq)
  finally have later: "?i < fst (create_policy now' t' c' a' d' ?s2)" .
  from old have "\<forall>row \<in> set (policies s). \<not> p_id row = ?i" by auto
  then have "find (\<lambda>row. p_id row = ?i)
      (policies s @ [\<lparr>p_id = ?i, p_title = t, p_category = c,
              p_target_audience = a, p_description = d, p_status = ''draft'',
              p_created_at = now, p_updated_at = now\<rparr>])
     = Some \<lparr>p_id = ?i, p_title = t, p_category = c,
              p_target_audience = a, p_description = d, p_status = ''draft'',
              p_created_at = now, p_updated_at = now\<rparr>"
    by (intro find_append_new) simp_all
  then have got: "get_policy ?s1 ?i = Some \<lparr>p_id = ?i, p_title = t, p_category = c,
              p_target_audience = a, p_description = d, p_status = ''draft'',
              p_created_at = now, p_updated_at = now\<rparr>"
    by (simp add: get_policy_def create_policy_def Let_def)
  from later old got show ?thesis by blast
qed

theorem create_policy_fresh_id_witness:
  "fst (create_policy ''2024-03-05T08:00:00'' ''Bike lanes'' ''Transport'' ''Citizens''
          ''Protected lanes'' two_policies) = 3 \<and>
   fst (create_policy ''2024-03-06T08:00:00'' ''Libraries'' ''Culture'' ''Families''
          ''Longer hours''
          (fold run_call [UpdatePolicyStatus ''2024-03-05T09:00:00'' 3 ''active'']
             (snd (create_policy ''2024-03-05T08:00:00'' ''Bike lanes'' ''Transport'' ''Citizens''
                     ''Protected lanes'' two_policies)))) = 4 \<and>
   get_policy (snd (create_policy ''2024-03-05T08:00:00'' ''Bike lanes'' ''Transport'' ''Citizens''
                      ''Protected lanes'' two_policies)) 3
     = Some \<lparr>p_id = 3, p_title = ''Bike lanes'', p_category = ''Transport'',
              p_target_audience = ''Citizens'', p_description = ''Protected lanes'',
              p_status = ''draft'', p_created_at = ''2024-03-05T08:00:00'',
              p_updated_at = ''2024-03-05T08:00:00''\<rparr>"
proof -
  have a: "fst (create_policy ''2024-03-05T08:00:00'' ''Bike lanes'' ''Transport'' ''Citizens''
          ''Protected lanes'' two_policies) = 3"
    by (simp add: create_policy_def Let_def next_rowid_def two_policies_def air_quality_def
        night_buses_def)
  have b: "fst (create_policy ''2024-03-06T08:00:00'' ''Libraries'' ''Culture'' ''Families''
          ''Longer hours''
          (fold run_call [UpdatePolicyStatus ''2024-03-05T09:00:00'' 3 ''active'']
             (snd (create_policy ''2024-03-05T08:00:00'' ''Bike lanes'' ''Transport'' ''Citizens''
                     ''Protected lanes'' two_policies)))) = 4"
    by (simp add: create_policy_def Let_def next_rowid_def two_policies_def air_quality_def
        night_buses_def update_policy_status_def)
  from create_policy_fresh_id [of "''2024-03-05T08:00:00''" "''Bike lanes''" "''Transport''" "''Citizens''"
      "''Protected lanes''" two_policies "''2024-03-06T08:00:00''" "''Libraries''" "''Culture''"
      "''Families''" "''Longer hours''" "[UpdatePolicyStatus ''2024-03-05T09:00:00'' 3 ''active'']"]
  show ?thesis
    by (simp only: a b)
qed

subsection \<open>Saving and listing contents\<close>



lemma json_dumps_not_Nil: "json_dumps v \<noteq> []"
  using json_dumps_first [of v] by auto

lemma loads_if_set_json_dumps: "wf_pyval v \<Longrightarrow> loads_if_set (Some (json_dumps v)) = Inr v"
  by (simp add: loads_if_set_def json_dumps_not_Nil json_loads_json_dumps)



subsection \<open>Rows written by the program\<close>

text \<open>
  A row written by \<open>save_policy_content\<close> or \<open>save_generated_media\<close> decodes, so every
  database that the writing functions build from the empty one is decodable.
\<close>

lemma decode_saved_content:
  assumes "wf_pyval content_data" and "wf_pyval metadata"
  shows "decode_content
           \<lparr>c_id = i, c_policy_id = p, c_content_type = ct,
            c_content_data = json_dumps content_data,
            c_metadata = Some (json_dumps (if truthy metadata then metadata else PDict [])),
            c_created_at = now\<rparr>
         = Inr \<lparr>c_id = i, c_policy_id = p, c_content_type = ct, c_content_data = content_data,
                c_metadata = (if truthy metadata then metadata else PDict []), c_created_at = now\<rparr>"
proof -
  from assms(2) have "wf_pyval (if truthy metadata then metadata else PDict [])" by simp
  with assms(1) show ?thesis
    by (simp add: decode_content_def json_loads_json_dumps loads_if_set_json_dumps
        del: json_dumps.simps)
qed

lemma decode_saved_media:
  assumes "wf_pyval params"
  shows "\<not> isl (decode_media
           \<lparr>m_id = i, m_policy_id = p, m_media_type = mt, m_media_url = None,
            m_media_data = Some md, m_prompt = Some pr,
            m_generation_params = Some (json_dumps params), m_created_at = now\<rparr>)"
  using assms by (simp add: decode_media_def loads_if_set_json_dumps del: json_dumps.simps)

lemma run_call_contents_decodable:
  assumes "wf_call c" and "contents_decodable s policy_id"
  shows "contents_decodable (run_call c s) policy_id"
proof (cases c)
  case (CreatePolicy now t ca a d)
  with assms(2) show ?thesis by (simp add: contents_decodable_def create_policy_def Let_def)
next
  case (UpdatePolicyStatus now i st)
  with assms(2) show ?thesis by (simp add: contents_decodable_def update_policy_status_def)
next
  case (SavePolicyContent now p ct cd md)
  with assms(1) have "wf_pyval cd" "wf_pyval md" by simp_all
  from decode_saved_content [OF this] assms(2) SavePolicyContent show ?thesis
    by (simp add: contents_decodable_def save_policy_content_def Let_def del: json_dumps.simps)
next
  case (SaveGeneratedMedia now p mt md pr params)
  with assms(2) show ?thesis by (simp add: contents_decodable_def save_generated_media_def Let_def)
qed

lemma run_call_media_decodable:
  assumes "wf_call c" and "media_decodable s policy_id"
  shows "media_decodable (run_call c s) policy_id"
proof (cases c)
  case (CreatePolicy now t ca a d)
  with assms(2) show ?thesis by (simp add: media_decodable_def create_policy_def Let_def)
next
  case (UpdatePolicyStatus now i st)
  with assms(2) show ?thesis by (simp add: media_decodable_def update_policy_status_def)
next
  case (SavePolicyContent now p ct cd md)
  with assms(2) show ?thesis by (simp add: media_decodable_def save_policy_content_def Let_def)
next
  case (SaveGeneratedMedia now p mt md pr params)
  with assms(1) have "wf_pyval params" by simp
  from decode_saved_media [OF this] assms(2) SaveGeneratedMedia show ?thesis
    by (simp add: media_decodable_def save_generated_media_def Let_def del: json_dumps.simps)
qed

lemma fold_run_call_decodable:
  "list_all wf_call calls \<Longrightarrow> contents_decodable s policy_id \<Longrightarrow> media_decodable s policy_id \<Longrightarrow>
   contents_decodable (fold run_call calls s) policy_id \<and>
   media_decodable (fold run_call calls s) policy_id"
proof (induction calls arbitrary: s)
  case Nil
  then show ?case by simp
next
  case (Cons c calls)
  from Cons.prems have "contents_decodable (run_call c s) policy_id"
    "media_decodable (run_call c s) policy_id" "list_all wf_call calls"
    by (simp_all add: run_call_contents_decodable run_call_media_decodable)
  from Cons.IH [OF this(3) this(1) this(2)] show ?case by simp
qed

lemma written_rows_decodable:
  assumes "list_all wf_call calls"
  shows "contents_decodable (fold run_call calls init_database) policy_id"
    and "media_decodable (fold run_call calls init_database) policy_id"
proof -
  have "contents_decodable init_database policy_id" "media_decodable init_database policy_id"
    by (simp_all add: contents_decodable_def media_decodable_def init_database_def)
  from fold_run_call_decodable [OF assms this]
  show "contents_decodable (fold run_call calls init_database) policy_id"
    and "media_decodable (fold run_call calls init_database) policy_id"
    by simp_all
qed

subsection \<open>Saved and corrupt rows\<close>












subsection \<open>Listing media\<close>









end
